theory Spec2Isabelle
  imports Main "HOL-Library.Signed_Division"
begin

section \<open>Go primitives used by main.go\<close>

text \<open>
  Values and indices are Go \<open>int\<close>s. The program never adds or multiplies a value, and
  an index is only ever incremented below \<open>size\<close>, so no operation of a reachable state
  overflows and \<open>int\<close> is used without a width. Go's \<open>%\<close> truncates towards zero, which
  is \<open>smod\<close>; it panics on a zero divisor. An index outside a slice panics, and so does
  \<open>make\<close> with a negative length or capacity, and \<open>time.NewTicker\<close> with a non-positive
  period. Every panic is a value of \<open>error\<close>.
\<close>

datatype error =
    IndexOutOfRange
  | DivideByZero
  | MakeSliceLenOutOfRange
  | MakeSliceCapOutOfRange
  | NonPositiveTickerInterval

definition in_bounds :: "int list \<Rightarrow> int \<Rightarrow> bool" where
  "in_bounds xs i = (0 \<le> i \<and> i < int (length xs))"

definition defaultBufferSize :: int where
  "defaultBufferSize = 5"

definition second :: int where
  "second = 1000000000"

definition defaultFlushInterval :: int where
  "defaultFlushInterval = 5 * second"

section \<open>RingBuffer\<close>

text \<open>
  The struct of main.go, lines 22 to 28. The mutex makes \<open>Push\<close> and \<open>Flush\<close> mutually
  exclusive, so each is one atomic step on the record; the field \<open>size\<close> is \<open>size_rb\<close>
  here.
\<close>

record RingBuffer =
  data :: "int list"
  head :: int
  tail :: int
  size_rb :: int

definition NewRingBuffer :: "int \<Rightarrow> error + RingBuffer" where
  "NewRingBuffer sz =
     (if sz < 0 then Inl MakeSliceLenOutOfRange
      else Inr \<lparr>data = replicate (nat sz) 0, head = 0, tail = 0, size_rb = sz\<rparr>)"

text \<open>
  \<open>Push\<close>, lines 39 to 48: store at \<open>tail\<close>, advance \<open>tail\<close>, and when it meets \<open>head\<close>
  advance \<open>head\<close> too.
\<close>

definition Push :: "RingBuffer \<Rightarrow> int \<Rightarrow> error + RingBuffer" where
  "Push rb val =
     (if \<not> in_bounds (data rb) (tail rb) then Inl IndexOutOfRange
      else
        let rb1 = rb\<lparr>data := (data rb)[nat (tail rb) := val]\<rparr> in
        if size_rb rb1 = 0 then Inl DivideByZero
        else
          let rb2 = rb1\<lparr>tail := (tail rb1 + 1) smod size_rb rb1\<rparr> in
          if tail rb2 = head rb2
          then Inr (rb2\<lparr>head := (head rb2 + 1) smod size_rb rb2\<rparr>)
          else Inr rb2)"

text \<open>
  \<open>Flush\<close>, lines 51 to 65. The loop runs until \<open>head\<close> meets \<open>tail\<close>; on a record that
  no sequence of calls produces (a \<open>tail\<close> outside the slice, say) it never does, so the
  loop is a partial function and \<open>None\<close> stands for not returning. The result is the
  returned slice (\<open>nil\<close> is the empty list) and the buffer as the call leaves it.
\<close>

partial_function (option) Flush_loop ::
  "RingBuffer \<Rightarrow> int list \<Rightarrow> (error + int list \<times> RingBuffer) option" where
  "Flush_loop rb acc =
     (if head rb \<noteq> tail rb then
        (if \<not> in_bounds (data rb) (head rb) then Some (Inl IndexOutOfRange)
         else if size_rb rb = 0 then Some (Inl DivideByZero)
         else Flush_loop (rb\<lparr>head := (head rb + 1) smod size_rb rb\<rparr>)
                (acc @ [data rb ! nat (head rb)]))
      else Some (Inr (acc, rb)))"

declare Flush_loop.simps [code]

definition Flush :: "RingBuffer \<Rightarrow> (error + int list \<times> RingBuffer) option" where
  "Flush rb =
     (if head rb = tail rb then Some (Inr ([], rb))
      else if size_rb rb < 0 then Some (Inl MakeSliceCapOutOfRange)
      else Flush_loop rb [])"

text \<open>A client of the buffer: any sequence of calls on one buffer, stopping at a panic.\<close>

datatype rb_op = OpPush int | OpFlush

fun run_ops :: "RingBuffer \<Rightarrow> rb_op list \<Rightarrow> (error + RingBuffer) option" where
  "run_ops rb [] = Some (Inr rb)"
| "run_ops rb (OpPush v # ops) =
     (case Push rb v of Inl e \<Rightarrow> Some (Inl e) | Inr rb' \<Rightarrow> run_ops rb' ops)"
| "run_ops rb (OpFlush # ops) =
     (case Flush rb of
        None \<Rightarrow> None
      | Some (Inl e) \<Rightarrow> Some (Inl e)
      | Some (Inr (xs, rb')) \<Rightarrow> run_ops rb' ops)"

section \<open>Pipeline stages\<close>

text \<open>
  A stage is a goroutine looping over a \<open>select\<close>. Its behaviour is a function of the
  sequence of cases the \<open>select\<close> takes, which the scheduler and the other goroutines
  choose: a receive from \<open>in\<close>, a receive from \<open>done\<close> and, for the last stage, a tick.
  A receive from a closed channel yields the zero value; \<open>Recv None\<close> is that receive.
  \<open>closed\<close> says that the function has returned, which runs the deferred \<open>close(out)\<close>.

  For the two filter stages a send \<open>out <- n\<close> is recorded in \<open>sent\<close>, in order, and is
  taken to complete. For the last stage the channel \<open>out\<close> is unbuffered and its receiver
  is a party of its own, so the hand-over is an event: \<open>Taken\<close> is a receiver taking
  the value that the stage offers on \<open>out\<close>.
\<close>

datatype sel_event = Recv "int option" | Done

datatype agg_event = ARecv "int option" | Tick | ADone | Taken

fun recv_val :: "int option \<Rightarrow> int" where
  "recv_val None = 0"
| "recv_val (Some n) = n"

record stage =
  sent :: "int list"
  closed :: bool

fun filterNegative_loop :: "sel_event list \<Rightarrow> int list \<Rightarrow> stage" where
  "filterNegative_loop [] out = \<lparr>sent = out, closed = False\<rparr>"
| "filterNegative_loop (Recv r # es) out =
     (let n = recv_val r in
      if n \<ge> 0 then filterNegative_loop es (out @ [n]) else filterNegative_loop es out)"
| "filterNegative_loop (Done # es) out = \<lparr>sent = out, closed = True\<rparr>"

definition filterNegative :: "sel_event list \<Rightarrow> stage" where
  "filterNegative es = filterNegative_loop es []"

fun filterNotDivisibleBy3_loop :: "sel_event list \<Rightarrow> int list \<Rightarrow> stage" where
  "filterNotDivisibleBy3_loop [] out = \<lparr>sent = out, closed = False\<rparr>"
| "filterNotDivisibleBy3_loop (Recv r # es) out =
     (let n = recv_val r in
      if n \<noteq> 0 \<and> n smod 3 = 0 then filterNotDivisibleBy3_loop es (out @ [n])
      else filterNotDivisibleBy3_loop es out)"
| "filterNotDivisibleBy3_loop (Done # es) out = \<lparr>sent = out, closed = True\<rparr>"

definition filterNotDivisibleBy3 :: "sel_event list \<Rightarrow> stage" where
  "filterNotDivisibleBy3 es = filterNotDivisibleBy3_loop es []"

text \<open>
  \<open>bufferAndSend\<close>, lines 98 to 120. Between two events the goroutine is at its
  \<open>select\<close> (\<open>pending\<close> is empty), or inside one of the two \<open>range\<close> loops, blocked
  in \<open>out <- n\<close> with \<open>n\<close> the first of \<open>pending\<close>, or it has returned (\<open>closed\<close>).
  \<open>returning\<close> tells the loop of the \<open>done\<close> case, which is followed by \<open>return\<close>,
  from the loop of the tick, which is followed by the next \<open>select\<close>.
\<close>

record agg_stage = stage +
  buffer :: RingBuffer
  pending :: "int list"
  returning :: bool

text \<open>The end of a \<open>range\<close> loop: nothing is left to send.\<close>

definition after_range :: "agg_stage \<Rightarrow> agg_stage" where
  "after_range st = (if pending st = [] \<and> returning st then st\<lparr>closed := True\<rparr> else st)"

text \<open>
  One event. Blocked in a send, the goroutine takes no case of the \<open>select\<close>: a value,
  a tick or a cancellation that comes up meanwhile is not received, and only a receiver
  on \<open>out\<close> moves it. At the \<open>select\<close>, a receiver on \<open>out\<close> finds nothing offered.
  A panic of the buffer ends the run with the error.
\<close>

definition bufferAndSend_step :: "agg_stage \<Rightarrow> agg_event \<Rightarrow> (error + agg_stage) option" where
  "bufferAndSend_step st e =
     (if closed st then Some (Inr st)
      else case pending st of
        n # ns \<Rightarrow>
          (case e of
             Taken \<Rightarrow> Some (Inr (after_range (st\<lparr>sent := sent st @ [n], pending := ns\<rparr>)))
           | _ \<Rightarrow> Some (Inr st))
      | [] \<Rightarrow>
          (case e of
             ARecv r \<Rightarrow>
               (case Push (buffer st) (recv_val r) of
                  Inl err \<Rightarrow> Some (Inl err)
                | Inr rb' \<Rightarrow> Some (Inr (st\<lparr>buffer := rb'\<rparr>)))
           | Tick \<Rightarrow>
               (case Flush (buffer st) of
                  None \<Rightarrow> None
                | Some (Inl err) \<Rightarrow> Some (Inl err)
                | Some (Inr (xs, rb')) \<Rightarrow>
                    Some (Inr (after_range (st\<lparr>buffer := rb', pending := xs, returning := False\<rparr>))))
           | ADone \<Rightarrow>
               (case Flush (buffer st) of
                  None \<Rightarrow> None
                | Some (Inl err) \<Rightarrow> Some (Inl err)
                | Some (Inr (xs, rb')) \<Rightarrow>
                    Some (Inr (after_range (st\<lparr>buffer := rb', pending := xs, returning := True\<rparr>))))
           | Taken \<Rightarrow> Some (Inr st)))"

fun bufferAndSend_loop :: "agg_stage \<Rightarrow> agg_event list \<Rightarrow> (error + agg_stage) option" where
  "bufferAndSend_loop st [] = Some (Inr st)"
| "bufferAndSend_loop st (e # es) =
     (case bufferAndSend_step st e of
        None \<Rightarrow> None
      | Some (Inl err) \<Rightarrow> Some (Inl err)
      | Some (Inr st') \<Rightarrow> bufferAndSend_loop st' es)"

definition bufferAndSend :: "int \<Rightarrow> int \<Rightarrow> agg_event list \<Rightarrow> (error + agg_stage) option" where
  "bufferAndSend bufferSize flushInterval es =
     (case NewRingBuffer bufferSize of
        Inl e \<Rightarrow> Some (Inl e)
      | Inr rb \<Rightarrow>
          if flushInterval \<le> 0 then Some (Inl NonPositiveTickerInterval)
          else bufferAndSend_loop
                 \<lparr>sent = [], closed = False, buffer = rb, pending = [], returning = False\<rparr> es)"

section \<open>Notions used to state the properties\<close>

text \<open>
  The states that \<open>NewRingBuffer\<close> with a positive size and the two methods produce:
  the slice has \<open>size\<close> slots and both indices are inside it.
\<close>

definition rb_inv :: "RingBuffer \<Rightarrow> bool" where
  "rb_inv rb =
     (0 < size_rb rb \<and> int (length (data rb)) = size_rb rb \<and>
      0 \<le> head rb \<and> head rb < size_rb rb \<and> 0 \<le> tail rb \<and> tail rb < size_rb rb)"

text \<open>The only state of a buffer made with size 0.\<close>

definition rb_inv0 :: "RingBuffer \<Rightarrow> bool" where
  "rb_inv0 rb = (size_rb rb = 0 \<and> data rb = [] \<and> head rb = 0 \<and> tail rb = 0)"

text \<open>The number of slots from \<open>head\<close> up to \<open>tail\<close>, going round, and what they hold.\<close>

definition count :: "RingBuffer \<Rightarrow> nat" where
  "count rb = nat ((tail rb - head rb) mod size_rb rb)"

definition live_from :: "int list \<Rightarrow> int \<Rightarrow> int \<Rightarrow> nat \<Rightarrow> int list" where
  "live_from d sz h n = map (\<lambda>i. d ! nat ((h + int i) mod sz)) [0..<n]"

definition contents :: "RingBuffer \<Rightarrow> int list" where
  "contents rb = live_from (data rb) (size_rb rb) (head rb) (count rb)"

definition keep_last :: "nat \<Rightarrow> 'a list \<Rightarrow> 'a list" where
  "keep_last k xs = drop (length xs - k) xs"

text \<open>The values a filter stage receives from \<open>in\<close> before it takes the \<open>done\<close> case.\<close>

fun arrivals :: "sel_event list \<Rightarrow> int list" where
  "arrivals [] = []"
| "arrivals (Recv r # es) = recv_val r # arrivals es"
| "arrivals (Done # es) = []"

section \<open>Arithmetic of the indices\<close>

lemma mod_neg_range: "- C \<le> x \<Longrightarrow> x < 0 \<Longrightarrow> x mod C = x + (C::int)"
proof -
  assume a: "- C \<le> x" "x < 0"
  have "x mod C = (x + C) mod C" by simp
  also have "\<dots> = x + C" using a by (intro mod_pos_pos_trivial) auto
  finally show ?thesis .
qed

lemma smod_eq_mod: "0 \<le> a \<Longrightarrow> 0 < b \<Longrightarrow> a smod b = a mod (b::int)"
  by (simp add: smod_mod_positive)

lemma smod3: "(n::int) smod 3 = 0 \<longleftrightarrow> n mod 3 = 0"
  by (auto simp: smod_int_alt_def sgn_if)

lemma ring_reach_tail:
  assumes "0 \<le> h" "h < C" "0 \<le> t" "t < (C::int)"
  shows "(h + (t - h) mod C) mod C = t"
proof -
  have "(h + (t - h) mod C) mod C = (h + (t - h)) mod C"
    by (simp only: mod_add_right_eq)
  then show ?thesis using assms by simp
qed

lemma ring_before_tail:
  assumes "0 \<le> h" "h < C" "0 \<le> t" "t < (C::int)" "int i < (t - h) mod C"
  shows "(h + int i) mod C \<noteq> t"
proof
  assume e: "(h + int i) mod C = t"
  have "(t - h) mod C = ((h + int i) mod C - h) mod C" using e by simp
  also have "\<dots> = (h + int i - h) mod C" by (simp only: mod_diff_left_eq)
  also have "\<dots> = int i mod C" by simp
  also have "\<dots> = int i"
  proof -
    have "(t - h) mod C < C" using assms by simp
    then show ?thesis using assms(5) by simp
  qed
  finally show False using assms(5) by simp
qed

lemma ring_count_push:
  assumes "0 \<le> h" "h < C" "0 \<le> t" "t < (C::int)" "(t + 1) mod C \<noteq> h"
  shows "((t + 1) mod C - h) mod C = (t - h) mod C + 1"
proof (cases "t + 1 = C")
  case True
  then have "(t + 1) mod C = 0" by simp
  moreover have "0 < h" "h \<le> t" using assms True by auto
  ultimately show ?thesis using assms True by (simp add: mod_neg_range)
next
  case False
  then have lt: "t + 1 < C" using assms by simp
  then have e: "(t + 1) mod C = t + 1" using assms by simp
  show ?thesis
  proof (cases "h \<le> t")
    case True
    then have "0 \<le> t + 1 - h" "t + 1 - h < C" using assms lt by auto
    then have "(t + 1 - h) mod C = t + 1 - h" by simp
    moreover have "(t - h) mod C = t - h" using True assms by simp
    ultimately show ?thesis using e by simp
  next
    case False
    then have "t + 1 < h" using assms e by simp
    then have "(t + 1 - h) mod C = t + 1 - h + C" "(t - h) mod C = t - h + C"
      using assms by (simp_all add: mod_neg_range)
    then show ?thesis using e by simp
  qed
qed

lemma ring_count_full:
  assumes "0 \<le> h" "h < C" "0 \<le> t" "t < (C::int)" "(t + 1) mod C = h"
  shows "(h - (h + 1) mod C) mod C = C - 1" and "(t - h) mod C = C - 1"
proof -
  have m: "(- 1) mod C = C - 1" using assms by (simp add: mod_neg_range)
  have "(h - (h + 1) mod C) mod C = (h - (h + 1)) mod C"
    by (simp only: mod_diff_right_eq)
  then show "(h - (h + 1) mod C) mod C = C - 1" using m by simp
  have "(t - h) mod C = (t - (t + 1) mod C) mod C" using assms(5) by simp
  also have "\<dots> = (t - (t + 1)) mod C" by (simp only: mod_diff_right_eq)
  finally show "(t - h) mod C = C - 1" using m by simp
qed

section \<open>The ring buffer on its reachable states\<close>

lemma live_from_0: "live_from d sz h 0 = []"
  by (simp add: live_from_def)

lemma live_from_snoc:
  "live_from d sz h (Suc n) = live_from d sz h n @ [d ! nat ((h + int n) mod sz)]"
  by (simp add: live_from_def)

lemma live_from_Cons:
  "live_from d sz h (Suc n) = d ! nat (h mod sz) # live_from d sz ((h + 1) mod sz) n"
proof -
  have "[0..<Suc n] = 0 # map Suc [0..<n]"
    by (simp add: upt_conv_Cons map_Suc_upt del: upt_Suc)
  then have "live_from d sz h (Suc n) =
      d ! nat (h mod sz) # map (\<lambda>i. d ! nat ((h + int (Suc i)) mod sz)) [0..<n]"
    unfolding live_from_def by (simp add: comp_def del: upt_Suc)
  moreover have "(h + int (Suc i)) mod sz = ((h + 1) mod sz + int i) mod sz" for i
  proof -
    have "h + int (Suc i) = (h + 1) + int i" by simp
    then show ?thesis by (simp only: mod_add_left_eq)
  qed
  ultimately show ?thesis
    by (simp add: live_from_def)
qed

lemma live_from_update:
  assumes "\<forall>i<n. (h + int i) mod C \<noteq> t" "0 \<le> t" "0 < C"
  shows "live_from (d[nat t := v]) C h n = live_from d C h n"
proof -
  have "(d[nat t := v]) ! nat ((h + int i) mod C) = d ! nat ((h + int i) mod C)"
    if "i < n" for i
  proof -
    have "0 \<le> (h + int i) mod C" using assms(3) by simp
    moreover have "(h + int i) mod C \<noteq> t" using assms(1) that by simp
    ultimately have "nat t \<noteq> nat ((h + int i) mod C)" using assms(2) by simp
    then show ?thesis by simp
  qed
  then show ?thesis by (simp add: live_from_def)
qed

lemma length_contents: "length (contents rb) = count rb"
  by (simp add: contents_def live_from_def)

lemma count_lt: "rb_inv rb \<Longrightarrow> int (count rb) < size_rb rb"
  by (simp add: count_def rb_inv_def)

lemma count_0_iff: "rb_inv rb \<Longrightarrow> count rb = 0 \<longleftrightarrow> head rb = tail rb"
proof -
  assume inv: "rb_inv rb"
  define h t C where "h = head rb" and "t = tail rb" and "C = size_rb rb"
  have r: "0 \<le> h" "h < C" "0 \<le> t" "t < C"
    using inv by (auto simp: rb_inv_def h_def t_def C_def)
  have "(t - h) mod C = 0 \<longleftrightarrow> h = t"
  proof (cases "h \<le> t")
    case True
    then show ?thesis using r by auto
  next
    case False
    then show ?thesis using r by (simp add: mod_neg_range)
  qed
  moreover have "0 \<le> (t - h) mod C" using r by simp
  ultimately show ?thesis
    by (simp add: count_def h_def t_def C_def)
qed

lemma count_step:
  assumes "rb_inv rb" "head rb \<noteq> tail rb"
  shows "count rb = Suc (count (rb\<lparr>head := (head rb + 1) mod size_rb rb\<rparr>))"
proof -
  define h t C where "h = head rb" and "t = tail rb" and "C = size_rb rb"
  have r: "0 \<le> h" "h < C" "0 \<le> t" "t < C" "h \<noteq> t"
    using assms by (auto simp: rb_inv_def h_def t_def C_def)
  have "(t - h) mod C = 1 + (t - (h + 1) mod C) mod C"
  proof (cases "h < t")
    case True
    then show ?thesis using r by simp
  next
    case False
    then have lt: "t < h" using r by simp
    show ?thesis
    proof (cases "h + 1 = C")
      case True
      then show ?thesis using r lt by (simp add: mod_neg_range)
    next
      case False
      then show ?thesis using r lt by (simp add: mod_neg_range)
    qed
  qed
  moreover have "0 \<le> (t - (h + 1) mod C) mod C" using r by simp
  ultimately show ?thesis
    by (simp add: count_def h_def t_def C_def)
qed

lemma rb_inv_step:
  "rb_inv rb \<Longrightarrow> rb_inv (rb\<lparr>head := (head rb + 1) mod size_rb rb\<rparr>)"
  by (simp add: rb_inv_def)

lemma Flush_loop_inv:
  "rb_inv rb \<Longrightarrow> Flush_loop rb acc = Some (Inr (acc @ contents rb, rb\<lparr>head := tail rb\<rparr>))"
proof (induction "count rb" arbitrary: rb acc)
  case 0
  then have "head rb = tail rb" by (simp add: count_0_iff)
  then show ?case using 0
    by (subst Flush_loop.simps) (simp add: contents_def live_from_0)
next
  case (Suc n)
  let ?rb = "rb\<lparr>head := (head rb + 1) mod size_rb rb\<rparr>"
  have ne: "head rb \<noteq> tail rb" using Suc by (metis count_0_iff nat.distinct(1))
  have inv': "rb_inv ?rb" using Suc.prems by (rule rb_inv_step)
  have cnt: "n = count ?rb" using count_step [OF Suc.prems ne] Suc.hyps(2) by simp
  have IH: "Flush_loop ?rb acc' = Some (Inr (acc' @ contents ?rb, ?rb\<lparr>head := tail ?rb\<rparr>))" for acc'
    using Suc.hyps(1) [OF cnt inv'] .
  have hm: "head rb mod size_rb rb = head rb" using Suc.prems by (simp add: rb_inv_def)
  have c: "contents rb = data rb ! nat (head rb) # contents ?rb"
    by (simp add: contents_def Suc.hyps(2) [symmetric] live_from_Cons hm cnt)
  have sm: "(head rb + 1) smod size_rb rb = (head rb + 1) mod size_rb rb"
    using Suc.prems by (simp add: rb_inv_def smod_eq_mod)
  have ib: "in_bounds (data rb) (head rb)" "size_rb rb \<noteq> 0"
    using Suc.prems by (auto simp: rb_inv_def in_bounds_def)
  show ?case
    by (subst Flush_loop.simps) (simp add: ne ib sm IH c)
qed

lemma Flush_inv:
  assumes "rb_inv rb"
  shows "Flush rb = Some (Inr (contents rb, rb\<lparr>head := tail rb\<rparr>))"
proof (cases "head rb = tail rb")
  case True
  then have "count rb = 0" using assms by (simp add: count_0_iff)
  then have "contents rb = []" by (simp add: contents_def live_from_0)
  moreover have "rb\<lparr>head := tail rb\<rparr> = rb" using True by simp
  ultimately show ?thesis using True by (simp add: Flush_def)
next
  case False
  moreover have "\<not> size_rb rb < 0" using assms by (simp add: rb_inv_def)
  ultimately show ?thesis using Flush_loop_inv [OF assms, of "[]"] by (simp add: Flush_def)
qed

lemma rb_inv_flushed: "rb_inv rb \<Longrightarrow> rb_inv (rb\<lparr>head := tail rb\<rparr>)"
  by (simp add: rb_inv_def)

lemma Flush_inv0: "rb_inv0 rb \<Longrightarrow> Flush rb = Some (Inr ([], rb))"
  by (simp add: Flush_def rb_inv0_def)

lemma Push_inv0: "rb_inv0 rb \<Longrightarrow> Push rb v = Inl IndexOutOfRange"
  by (simp add: Push_def rb_inv0_def in_bounds_def)

lemma Push_inv:
  assumes inv: "rb_inv rb"
  shows "\<exists>rb'. Push rb v = Inr rb' \<and> rb_inv rb' \<and> size_rb rb' = size_rb rb \<and>
           contents rb' = keep_last (nat (size_rb rb) - 1) (contents rb @ [v])"
proof -
  define h t C d' where "h = head rb" and "t = tail rb" and "C = size_rb rb"
    and "d' = (data rb)[nat t := v]"
  have r: "0 \<le> h" "h < C" "0 \<le> t" "t < C" "0 < C" "int (length (data rb)) = C"
    using inv by (auto simp: rb_inv_def h_def t_def C_def)
  have sm: "(t + 1) smod C = (t + 1) mod C" "(h + 1) smod C = (h + 1) mod C"
    using r by (simp_all add: smod_eq_mod)
  have ib: "in_bounds (data rb) t" using r by (simp add: in_bounds_def)
  have n: "int (count rb) = (t - h) mod C"
    using r by (simp add: count_def h_def t_def C_def)
  have before: "\<forall>i<count rb. (h + int i) mod C \<noteq> t"
    using ring_before_tail [OF r(1-4)] n by simp
  have "live_from d' C h (Suc (count rb)) =
      live_from d' C h (count rb) @ [d' ! nat ((h + int (count rb)) mod C)]"
    by (rule live_from_snoc)
  also have "live_from d' C h (count rb) = live_from (data rb) C h (count rb)"
    unfolding d'_def using before r by (intro live_from_update) auto
  also have "(h + int (count rb)) mod C = t"
    using ring_reach_tail [OF r(1-4)] n by simp
  also have "d' ! nat t = v" using r by (simp add: d'_def)
  finally have snoc: "live_from d' C h (Suc (count rb)) = contents rb @ [v]"
    by (simp add: contents_def h_def C_def)
  show ?thesis
  proof (cases "(t + 1) mod C = h")
    case True
    define rb' where "rb' = rb\<lparr>data := d', tail := h, head := (h + 1) mod C\<rparr>"
    have P: "Push rb v = Inr rb'"
      using True ib r sm
      by (simp add: Push_def Let_def rb'_def d'_def h_def [symmetric] t_def [symmetric] C_def [symmetric])
    have I: "rb_inv rb'" using r by (simp add: rb_inv_def rb'_def d'_def C_def [symmetric])
    have full: "int (count rb) = C - 1" using ring_count_full(2) [OF r(1-4) True] n by simp
    have "count rb' = nat ((h - (h + 1) mod C) mod C)"
      by (simp add: count_def rb'_def C_def [symmetric])
    also have "\<dots> = nat (C - 1)"
      using ring_count_full(1) [OF r(1-4) True] by simp
    also have "\<dots> = count rb" using full by simp
    finally have c': "count rb' = count rb" .
    have "live_from d' C h (Suc (count rb)) = d' ! nat (h mod C) # contents rb'"
      by (simp add: live_from_Cons contents_def rb'_def c' [unfolded rb'_def] C_def [symmetric])
    then have "contents rb' = tl (contents rb @ [v])" using snoc by simp
    also have "\<dots> = keep_last (nat C - 1) (contents rb @ [v])"
    proof -
      have "length (contents rb @ [v]) - (nat C - 1) = Suc 0"
        using full r by (simp add: length_contents)
      then show ?thesis unfolding keep_last_def by (simp only: drop_Suc drop_0)
    qed
    finally show ?thesis using P I by (simp add: rb'_def C_def)
  next
    case False
    define rb' where "rb' = rb\<lparr>data := d', tail := (t + 1) mod C\<rparr>"
    have P: "Push rb v = Inr rb'"
      using False ib r sm
      by (simp add: Push_def Let_def rb'_def d'_def h_def [symmetric] t_def [symmetric] C_def [symmetric])
    have I: "rb_inv rb'" using r by (simp add: rb_inv_def rb'_def d'_def C_def [symmetric] h_def [symmetric])
    have "count rb' = nat (((t + 1) mod C - h) mod C)"
      by (simp add: count_def rb'_def C_def [symmetric] h_def [symmetric])
    also have "\<dots> = nat (int (count rb) + 1)"
      using ring_count_push [OF r(1-4) False] n by simp
    also have "\<dots> = Suc (count rb)" by simp
    finally have c': "count rb' = Suc (count rb)" .
    have lt: "int (count rb') < C" using count_lt [OF I] by (simp add: rb'_def C_def)
    have "contents rb' = contents rb @ [v]"
      using snoc by (simp add: contents_def c' [unfolded rb'_def] rb'_def C_def [symmetric] h_def [symmetric])
    also have "\<dots> = keep_last (nat C - 1) (contents rb @ [v])"
      using lt c' by (simp add: keep_last_def length_contents)
    finally show ?thesis using P I by (simp add: rb'_def C_def)
  qed
qed

lemma NewRingBuffer_inv:
  "1 \<le> C \<Longrightarrow> \<exists>rb0. NewRingBuffer C = Inr rb0 \<and> rb_inv rb0 \<and> size_rb rb0 = C \<and> contents rb0 = []"
  by (simp add: NewRingBuffer_def rb_inv_def contents_def count_def live_from_def)

lemma NewRingBuffer_0: "\<exists>rb0. NewRingBuffer 0 = Inr rb0 \<and> rb_inv0 rb0"
  by (simp add: NewRingBuffer_def rb_inv0_def)

lemma run_ops_inv:
  "rb_inv rb \<Longrightarrow> \<exists>rb'. run_ops rb ops = Some (Inr rb') \<and> rb_inv rb' \<and> size_rb rb' = size_rb rb"
proof (induction ops arbitrary: rb)
  case Nil
  then show ?case by simp
next
  case (Cons op ops)
  show ?case
  proof (cases op)
    case (OpPush v)
    obtain rb1 where "Push rb v = Inr rb1" "rb_inv rb1" "size_rb rb1 = size_rb rb"
      using Push_inv [OF Cons.prems] by blast
    then show ?thesis using Cons.IH [of rb1] OpPush by simp
  next
    case OpFlush
    have "rb_inv (rb\<lparr>head := tail rb\<rparr>)" using Cons.prems by (rule rb_inv_flushed)
    then show ?thesis
      using Cons.IH [of "rb\<lparr>head := tail rb\<rparr>"] OpFlush Flush_inv [OF Cons.prems] by simp
  qed
qed

lemma run_ops_inv0:
  "rb_inv0 rb \<Longrightarrow> run_ops rb ops = Some (Inr rb') \<Longrightarrow> rb' = rb"
proof (induction ops)
  case Nil
  then show ?case by simp
next
  case (Cons op ops)
  then show ?case by (cases op) (simp_all add: Push_inv0 Flush_inv0)
qed

lemma keep_last_append:
  "keep_last k (keep_last k xs @ ys) = keep_last k (xs @ ys)"
proof (cases "length xs \<le> k")
  case True
  then show ?thesis by (simp add: keep_last_def)
next
  case False
  define m where "m = length xs - k"
  have m: "m \<le> length xs" "length xs - m = k" using False by (simp_all add: m_def)
  have "length (xs @ ys) - k = length ys + m" using False by (simp add: m_def)
  then have "keep_last k (xs @ ys) = drop (length ys + m) (xs @ ys)"
    by (simp only: keep_last_def)
  also have "\<dots> = drop (length ys) (drop m (xs @ ys))" by (simp only: drop_drop)
  also have "drop m (xs @ ys) = drop m xs @ ys" using m by simp
  also have "drop (length ys) (drop m xs @ ys) = keep_last k (drop m xs @ ys)"
    using m by (simp add: keep_last_def)
  finally show ?thesis by (simp add: keep_last_def [of k xs] m_def)
qed

lemma pushes_contents:
  "rb_inv rb \<Longrightarrow> \<exists>rb'. run_ops rb (map OpPush vs) = Some (Inr rb') \<and> rb_inv rb' \<and>
     size_rb rb' = size_rb rb \<and>
     contents rb' = keep_last (nat (size_rb rb) - 1) (contents rb @ vs)"
proof (induction vs arbitrary: rb)
  case Nil
  have "length (contents rb) \<le> nat (size_rb rb) - 1"
    using count_lt [OF Nil] by (simp add: length_contents)
  then show ?case using Nil by (simp add: keep_last_def)
next
  case (Cons v vs)
  obtain rb1 where p: "Push rb v = Inr rb1" "rb_inv rb1" "size_rb rb1 = size_rb rb"
    "contents rb1 = keep_last (nat (size_rb rb) - 1) (contents rb @ [v])"
    using Push_inv [OF Cons.prems] by blast
  have "keep_last k (keep_last k (ys @ [v]) @ vs) = keep_last k (ys @ v # vs)" for k and ys :: "int list"
    using keep_last_append [of k "ys @ [v]" vs] by simp
  then show ?case using Cons.IH [OF p(2)] p by simp
qed

section \<open>The stage loops\<close>

lemma filterNegative_loop_sent:
  "sent (filterNegative_loop es out) = out @ filter (\<lambda>n. 0 \<le> n) (arrivals es)"
  by (induction es out rule: filterNegative_loop.induct) (simp_all add: Let_def)

lemma filterNotDivisibleBy3_loop_sent:
  "sent (filterNotDivisibleBy3_loop es out) =
     out @ filter (\<lambda>n. n \<noteq> 0 \<and> n mod 3 = 0) (arrivals es)"
  by (induction es out rule: filterNotDivisibleBy3_loop.induct) (simp_all add: Let_def smod3)

lemma filterNegative_loop_closed:
  "closed (filterNegative_loop es out) \<longleftrightarrow> Done \<in> set es"
  by (induction es out rule: filterNegative_loop.induct) (simp_all add: Let_def)

lemma filterNotDivisibleBy3_loop_closed:
  "closed (filterNotDivisibleBy3_loop es out) \<longleftrightarrow> Done \<in> set es"
  by (induction es out rule: filterNotDivisibleBy3_loop.induct) (simp_all add: Let_def)

lemma filterNegative_loop_append:
  "Done \<notin> set es \<Longrightarrow>
     filterNegative_loop (es @ es') out = filterNegative_loop es' (sent (filterNegative_loop es out))"
  by (induction es out rule: filterNegative_loop.induct) (simp_all add: Let_def)

lemma filterNotDivisibleBy3_loop_append:
  "Done \<notin> set es \<Longrightarrow>
     filterNotDivisibleBy3_loop (es @ es') out =
       filterNotDivisibleBy3_loop es' (sent (filterNotDivisibleBy3_loop es out))"
  by (induction es out rule: filterNotDivisibleBy3_loop.induct) (simp_all add: Let_def)

lemma filterNegative_loop_zeros:
  "filterNegative_loop (replicate k (Recv None)) out = \<lparr>sent = out @ replicate k 0, closed = False\<rparr>"
  by (induction k arbitrary: out) (simp_all add: replicate_app_Cons_same)

lemma filterNotDivisibleBy3_loop_zeros:
  "filterNotDivisibleBy3_loop (replicate k (Recv None)) out = \<lparr>sent = out, closed = False\<rparr>"
  by (induction k arbitrary: out) simp_all

lemma bufferAndSend_loop_append:
  "bufferAndSend_loop st (es @ es') =
     (case bufferAndSend_loop st es of
        None \<Rightarrow> None
      | Some (Inl err) \<Rightarrow> Some (Inl err)
      | Some (Inr st') \<Rightarrow> bufferAndSend_loop st' es')"
  by (induction es arbitrary: st) (auto split: option.splits sum.splits)

lemma bufferAndSend_step_closed: "closed st \<Longrightarrow> bufferAndSend_step st e = Some (Inr st)"
  by (simp add: bufferAndSend_step_def)

lemma bufferAndSend_loop_closed: "closed st \<Longrightarrow> bufferAndSend_loop st es = Some (Inr st)"
  by (induction es) (simp_all add: bufferAndSend_step_closed)

lemma buffer_after_range: "buffer (after_range st) = buffer st"
  by (simp add: after_range_def)

lemma bufferAndSend_step_total:
  assumes "rb_inv (buffer st)"
  shows "\<exists>st'. bufferAndSend_step st e = Some (Inr st') \<and> rb_inv (buffer st')"
proof (cases "closed st")
  case True
  then show ?thesis using assms by (simp add: bufferAndSend_step_closed)
next
  case False
  show ?thesis
  proof (cases "pending st")
    case (Cons n ns)
    then show ?thesis using False assms
      by (cases e) (simp_all add: bufferAndSend_step_def buffer_after_range)
  next
    case Nil
    have fl: "Flush (buffer st) =
        Some (Inr (contents (buffer st), (buffer st)\<lparr>head := tail (buffer st)\<rparr>))"
      "rb_inv ((buffer st)\<lparr>head := tail (buffer st)\<rparr>)"
      using assms by (simp_all add: Flush_inv rb_inv_flushed)
    show ?thesis
    proof (cases e)
      case (ARecv r)
      obtain rb1 where "Push (buffer st) (recv_val r) = Inr rb1" "rb_inv rb1"
        using Push_inv [OF assms] by blast
      then show ?thesis using False Nil ARecv by (simp add: bufferAndSend_step_def)
    next
      case Tick
      then show ?thesis using False Nil fl
        by (simp add: bufferAndSend_step_def buffer_after_range)
    next
      case ADone
      then show ?thesis using False Nil fl
        by (simp add: bufferAndSend_step_def buffer_after_range)
    next
      case Taken
      then show ?thesis using False Nil assms by (simp add: bufferAndSend_step_def)
    qed
  qed
qed

lemma bufferAndSend_loop_total:
  "rb_inv (buffer st) \<Longrightarrow>
     \<exists>st'. bufferAndSend_loop st es = Some (Inr st') \<and> rb_inv (buffer st')"
proof (induction es arbitrary: st)
  case Nil
  then show ?case by simp
next
  case (Cons e es)
  obtain st1 where "bufferAndSend_step st e = Some (Inr st1)" "rb_inv (buffer st1)"
    using bufferAndSend_step_total [OF Cons.prems] by blast
  then show ?case using Cons.IH [of st1] by simp
qed

lemma bufferAndSend_loop_drain:
  "\<not> closed st \<Longrightarrow> pending st \<noteq> [] \<Longrightarrow> returning st \<Longrightarrow>
     bufferAndSend_loop st rest =
       Some (Inr (st\<lparr>sent := sent st @ take (count_list rest Taken) (pending st),
                    closed := length (pending st) \<le> count_list rest Taken,
                    pending := drop (count_list rest Taken) (pending st)\<rparr>))"
proof (induction rest arbitrary: st)
  case Nil
  then show ?case by simp
next
  case (Cons e rest)
  obtain n ns where p: "pending st = n # ns" using Cons.prems(2) by (cases "pending st") auto
  show ?case
  proof (cases "e = Taken")
    case False
    then have "bufferAndSend_step st e = Some (Inr st)"
      using Cons.prems(1) p by (cases e) (simp_all add: bufferAndSend_step_def)
    then show ?thesis using Cons.IH [OF Cons.prems] False by simp
  next
    case True
    let ?st = "st\<lparr>sent := sent st @ [n], pending := ns\<rparr>"
    have s: "bufferAndSend_step st e = Some (Inr (after_range ?st))"
      using Cons.prems(1) p True by (simp add: bufferAndSend_step_def)
    show ?thesis
    proof (cases ns)
      case Nil
      then have "closed (after_range ?st)" using Cons.prems(3) by (simp add: after_range_def)
      then have "bufferAndSend_loop (after_range ?st) rest = Some (Inr (after_range ?st))"
        by (rule bufferAndSend_loop_closed)
      then show ?thesis using s p Nil True Cons.prems(3) by (simp add: after_range_def)
    next
      case more: (Cons m ms)
      then have a: "after_range ?st = ?st" by (simp add: after_range_def)
      have "bufferAndSend_loop ?st rest =
          Some (Inr (?st\<lparr>sent := sent ?st @ take (count_list rest Taken) (pending ?st),
                    closed := length (pending ?st) \<le> count_list rest Taken,
                    pending := drop (count_list rest Taken) (pending ?st)\<rparr>))"
        using Cons.prems(1,3) more by (intro Cons.IH) simp_all
      then show ?thesis using s a p True by simp
    qed
  qed
qed

section \<open>What a run of pushes leaves in the buffer\<close>

text \<open>
  From a fresh buffer of size \<open>C\<close>, the pushes \<open>vs\<close> and then a \<open>Flush\<close> return the
  last \<open>C - 1\<close> values of \<open>vs\<close>: \<open>Push\<close> gives up the oldest value as soon as \<open>tail\<close>
  meets \<open>head\<close>, which is when the last free slot has just been written.
\<close>

lemma Flush_after_pushes:
  assumes "1 \<le> C"
  shows "\<exists>rb0 rb rb'. NewRingBuffer C = Inr rb0 \<and>
           run_ops rb0 (map OpPush vs) = Some (Inr rb) \<and>
           Flush rb = Some (Inr (keep_last (nat C - 1) vs, rb'))"
proof -
  obtain rb0 where n: "NewRingBuffer C = Inr rb0" "rb_inv rb0" "size_rb rb0 = C" "contents rb0 = []"
    using NewRingBuffer_inv [OF assms] by blast
  obtain rb where r: "run_ops rb0 (map OpPush vs) = Some (Inr rb)" "rb_inv rb"
    "contents rb = keep_last (nat C - 1) vs"
    using pushes_contents [OF n(2), of vs] n by auto
  show ?thesis using n(1) r Flush_inv [OF r(2)] by auto
qed

section \<open>The properties\<close>

text \<open>
  Claim C1 (ring buffer capacity): after \<open>C + k\<close> pushes into a fresh buffer of capacity
  \<open>C\<close>, \<open>Flush\<close> is to return the last \<open>C\<close> values; with capacity 2 and the pushes
  3, 9, 6 it is to return \<open>[9, 6]\<close>. Evaluated on the code, that run returns \<open>[6]\<close>:
  the second push already drops the 3, although the slice has a slot for each of the
  two values, and the third drops the 9.
\<close>

theorem Flush_capacity_two_after_three_pushes:
  "NewRingBuffer 2 = Inr \<lparr>data = [0, 0], head = 0, tail = 0, size_rb = 2\<rparr> \<and>
   run_ops \<lparr>data = [0, 0], head = 0, tail = 0, size_rb = 2\<rparr> [OpPush 3, OpPush 9, OpPush 6]
     = Some (Inr \<lparr>data = [6, 9], head = 0, tail = 1, size_rb = 2\<rparr>) \<and>
   Flush \<lparr>data = [6, 9], head = 0, tail = 1, size_rb = 2\<rparr>
     = Some (Inr ([6], \<lparr>data = [6, 9], head = 1, tail = 1, size_rb = 2\<rparr>))"
  by code_simp

text \<open>
  Claim C3 (filter correctness): of the values a filter stage receives, in the order
  they arrive, \<open>filterNegative\<close> sends on exactly those with \<open>n \<ge> 0\<close> and
  \<open>filterNotDivisibleBy3\<close> exactly those with \<open>n \<noteq> 0\<close> and \<open>n mod 3 = 0\<close>, in the same
  order; nothing else is sent. The values that arrive when the upstream sends \<open>ns\<close> are
  \<open>ns\<close>.
\<close>

theorem filter_correctness:
  "sent (filterNegative es) = filter (\<lambda>n. 0 \<le> n) (arrivals es) \<and>
   sent (filterNotDivisibleBy3 es) = filter (\<lambda>n. n \<noteq> 0 \<and> n mod 3 = 0) (arrivals es) \<and>
   arrivals (map (Recv \<circ> Some) ns) = ns"
proof -
  have "arrivals (map (Recv \<circ> Some) ns) = ns" by (induction ns) simp_all
  then show ?thesis
    by (simp add: filterNegative_def filterNotDivisibleBy3_def
        filterNegative_loop_sent filterNotDivisibleBy3_loop_sent)
qed

theorem filter_correctness_witness:
  "sent (filterNegative (map (Recv \<circ> Some) [- 2, 3, 0, - 9, 7])) = [3, 0, 7] \<and>
   sent (filterNotDivisibleBy3 (map (Recv \<circ> Some) [- 2, 3, 0, - 9, 7])) = [3, - 9]"
  using filter_correctness [of "map (Recv \<circ> Some) [- 2, 3, 0, - 9, 7]" "[- 2, 3, 0, - 9, 7]"]
  by simp

text \<open>
  With the values 3 and 9 in a buffer of size 5 and no receiver on \<open>out\<close>, the stage
  that takes the \<open>done\<close> case stays in its first send: it has sent nothing and has not
  closed \<open>out\<close>, whatever comes up afterwards. This is the stage of the program after an
  interrupt, since \<open>main\<close> stops receiving from \<open>pipelineOut\<close> when it sends on \<open>done\<close>.
\<close>

theorem cancellation_blocks_without_receiver:
  "bufferAndSend 5 defaultFlushInterval
     [ARecv (Some 3), ARecv (Some 9), ADone, Tick, ARecv (Some 12), ADone] =
   Some (Inr \<lparr>sent = [], closed = False,
     buffer = \<lparr>data = [3, 9, 0, 0, 0], head = 2, tail = 2, size_rb = 5\<rparr>,
     pending = [3, 9], returning = True\<rparr>)"
  by code_simp

text \<open>
  Claim C4 (cancellation drain), as the code has it: a \<open>bufferAndSend\<close> with a positive
  buffer size and period has run through any events \<open>pre\<close> and is at its \<open>select\<close>,
  with a buffer whose \<open>Flush\<close> returns \<open>xs\<close>. When it then takes the \<open>done\<close> case it
  hands \<open>xs\<close> over in that order, one value to each receive on \<open>out\<close>, after what it had
  sent before, and each value once. When the receiver has taken all of \<open>xs\<close> the stage
  has returned and closed \<open>out\<close>; until then it is blocked in the send and \<open>out\<close> is
  open. No tick, value or cancellation that comes up after the \<open>done\<close> case changes
  anything. With size 5 and the values 3 and 9 in the buffer, a receiver that takes
  them gets \<open>[3, 9]\<close>, and \<open>out\<close> is closed.
\<close>

theorem cancellation_drain:
  assumes "1 \<le> C" "0 < ival"
  shows "\<exists>st xs rb'. bufferAndSend C ival pre = Some (Inr st) \<and>
           Flush (buffer st) = Some (Inr (xs, rb')) \<and>
           (\<not> closed st \<and> pending st = [] \<longrightarrow>
              bufferAndSend C ival (pre @ ADone # rest) =
                Some (Inr \<lparr>sent = sent st @ take (count_list rest Taken) xs,
                  closed = (length xs \<le> count_list rest Taken),
                  buffer = rb',
                  pending = drop (count_list rest Taken) xs,
                  returning = True\<rparr>))"
proof -
  let ?k = "count_list rest Taken"
  obtain rb0 where n: "NewRingBuffer C = Inr rb0" "rb_inv rb0"
    using NewRingBuffer_inv [OF assms(1)] by blast
  let ?st0 = "\<lparr>sent = [], closed = False, buffer = rb0, pending = [], returning = False\<rparr>"
  obtain st where st: "bufferAndSend_loop ?st0 pre = Some (Inr st)" "rb_inv (buffer st)"
    using bufferAndSend_loop_total [of ?st0 pre] n(2) by auto
  let ?xs = "contents (buffer st)" and ?rb = "(buffer st)\<lparr>head := tail (buffer st)\<rparr>"
  have fl: "Flush (buffer st) = Some (Inr (?xs, ?rb))"
    using st(2) by (rule Flush_inv)
  have run: "bufferAndSend C ival es = bufferAndSend_loop ?st0 es" for es
    using n(1) assms(2) by (simp add: bufferAndSend_def)
  have "bufferAndSend_loop ?st0 (pre @ ADone # rest) =
      Some (Inr \<lparr>sent = sent st @ take ?k ?xs, closed = (length ?xs \<le> ?k), buffer = ?rb,
        pending = drop ?k ?xs, returning = True\<rparr>)"
    if at: "\<not> closed st" "pending st = []"
  proof -
    let ?st1 = "st\<lparr>buffer := ?rb, pending := ?xs, returning := True\<rparr>"
    have step: "bufferAndSend_step st ADone = Some (Inr (after_range ?st1))"
      using at fl by (simp add: bufferAndSend_step_def)
    have "bufferAndSend_loop (after_range ?st1) rest =
        Some (Inr \<lparr>sent = sent st @ take ?k ?xs, closed = (length ?xs \<le> ?k), buffer = ?rb,
          pending = drop ?k ?xs, returning = True\<rparr>)"
    proof (cases "?xs = []")
      case True
      then have c: "closed (after_range ?st1)" by (simp add: after_range_def)
      show ?thesis
        using bufferAndSend_loop_closed [OF c, of rest] True by (simp add: after_range_def)
    next
      case False
      then have a: "after_range ?st1 = ?st1" by (simp add: after_range_def)
      show ?thesis
        using bufferAndSend_loop_drain [of ?st1 rest] at False unfolding a by simp
    qed
    then show ?thesis using st(1) step by (simp add: bufferAndSend_loop_append)
  qed
  then show ?thesis using st(1) fl run by auto
qed

theorem cancellation_drain_witness:
  "(1::int) \<le> 5 \<and> 0 < defaultFlushInterval \<and>
   bufferAndSend 5 defaultFlushInterval [ARecv (Some 3), ARecv (Some 9)] =
     Some (Inr \<lparr>sent = [], closed = False,
       buffer = \<lparr>data = [3, 9, 0, 0, 0], head = 0, tail = 2, size_rb = 5\<rparr>,
       pending = [], returning = False\<rparr>) \<and>
   bufferAndSend 5 defaultFlushInterval
       ([ARecv (Some 3), ARecv (Some 9)] @ ADone # [Taken, Tick, Taken, ARecv (Some 12), Taken]) =
     Some (Inr \<lparr>sent = [3, 9], closed = True,
       buffer = \<lparr>data = [3, 9, 0, 0, 0], head = 2, tail = 2, size_rb = 5\<rparr>,
       pending = [], returning = True\<rparr>)"
proof -
  let ?pre = "[ARecv (Some 3), ARecv (Some 9)]"
  let ?rest = "[Taken, Tick, Taken, ARecv (Some 12), Taken]"
  let ?rb = "\<lparr>data = [3, 9, 0, 0, 0], head = 0, tail = 2, size_rb = 5\<rparr>"
  have h: "(1::int) \<le> 5" "0 < defaultFlushInterval"
    by (simp_all add: defaultFlushInterval_def second_def)
  have pre: "bufferAndSend 5 defaultFlushInterval ?pre =
      Some (Inr \<lparr>sent = [], closed = False, buffer = ?rb, pending = [], returning = False\<rparr>)"
    by code_simp
  have fl: "Flush ?rb =
      Some (Inr ([3, 9], \<lparr>data = [3, 9, 0, 0, 0], head = 2, tail = 2, size_rb = 5\<rparr>))"
    by code_simp
  have k: "count_list ?rest Taken = 3" by simp
  obtain st xs rb' where a: "bufferAndSend 5 defaultFlushInterval ?pre = Some (Inr st)"
    and b: "Flush (buffer st) = Some (Inr (xs, rb'))"
    and c: "\<not> closed st \<and> pending st = [] \<longrightarrow>
              bufferAndSend 5 defaultFlushInterval (?pre @ ADone # ?rest) =
                Some (Inr \<lparr>sent = sent st @ take (count_list ?rest Taken) xs,
                  closed = (length xs \<le> count_list ?rest Taken),
                  buffer = rb',
                  pending = drop (count_list ?rest Taken) xs,
                  returning = True\<rparr>)"
    using cancellation_drain [OF h, of ?pre ?rest] by blast
  have st: "st = \<lparr>sent = [], closed = False, buffer = ?rb, pending = [], returning = False\<rparr>"
    using a pre by simp
  have xs: "xs = [3, 9]" "rb' = \<lparr>data = [3, 9, 0, 0, 0], head = 2, tail = 2, size_rb = 5\<rparr>"
    using b fl unfolding st by simp_all
  have "bufferAndSend 5 defaultFlushInterval (?pre @ ADone # ?rest) =
      Some (Inr \<lparr>sent = [3, 9], closed = True,
        buffer = \<lparr>data = [3, 9, 0, 0, 0], head = 2, tail = 2, size_rb = 5\<rparr>,
        pending = [], returning = True\<rparr>)"
    using c unfolding st xs k by simp
  then show ?thesis using h pre by blast
qed

text \<open>
  Claim C5 (empty flush, flush twice): \<open>Flush\<close> on a buffer just made returns the empty
  sequence, and in every state that calls of \<open>Push\<close> and \<open>Flush\<close> lead to, \<open>Flush\<close>
  returns some values and a second \<open>Flush\<close> right after it returns the empty sequence;
  neither panics.
\<close>

theorem Flush_empty_and_idempotent:
  assumes "0 \<le> C"
  shows "\<exists>rb0. NewRingBuffer C = Inr rb0 \<and> Flush rb0 = Some (Inr ([], rb0)) \<and>
           (\<forall>ops rb. run_ops rb0 ops = Some (Inr rb) \<longrightarrow>
              (\<exists>xs rb'. Flush rb = Some (Inr (xs, rb')) \<and> Flush rb' = Some (Inr ([], rb'))))"
proof (cases "C = 0")
  case True
  obtain rb0 where n: "NewRingBuffer 0 = Inr rb0" "rb_inv0 rb0"
    using NewRingBuffer_0 by blast
  have "Flush rb = Some (Inr ([], rb))" if "run_ops rb0 ops = Some (Inr rb)" for ops rb
    using run_ops_inv0 [OF n(2) that] n(2) by (simp add: Flush_inv0)
  then show ?thesis using True n by (auto simp: Flush_inv0)
next
  case False
  then have "1 \<le> C" using assms by simp
  then obtain rb0 where n: "NewRingBuffer C = Inr rb0" "rb_inv rb0" "contents rb0 = []"
    using NewRingBuffer_inv by blast
  have first: "Flush rb0 = Some (Inr ([], rb0))"
    using n(1) by (auto simp: Flush_def NewRingBuffer_def split: if_splits)
  have "\<exists>xs rb'. Flush rb = Some (Inr (xs, rb')) \<and> Flush rb' = Some (Inr ([], rb'))"
    if "run_ops rb0 ops = Some (Inr rb)" for ops rb
  proof -
    have i: "rb_inv rb" using run_ops_inv [OF n(2), of ops] that by auto
    let ?rb' = "rb\<lparr>head := tail rb\<rparr>"
    have "Flush rb = Some (Inr (contents rb, ?rb'))" using i by (rule Flush_inv)
    moreover have "Flush ?rb' = Some (Inr ([], ?rb'))" by (simp add: Flush_def)
    ultimately show ?thesis by blast
  qed
  then show ?thesis using n(1) first by blast
qed

theorem Flush_empty_and_idempotent_witness:
  "(0::int) \<le> 2 \<and>
   (\<exists>rb0 rb rb'. NewRingBuffer 2 = Inr rb0 \<and> Flush rb0 = Some (Inr ([], rb0)) \<and>
      run_ops rb0 [OpPush 3, OpPush 9] = Some (Inr rb) \<and>
      Flush rb = Some (Inr ([9], rb')) \<and> Flush rb' = Some (Inr ([], rb')))"
proof -
  have h: "(0::int) \<le> 2" by simp
  have n: "NewRingBuffer 2 = Inr \<lparr>data = [0, 0], head = 0, tail = 0, size_rb = 2\<rparr>"
    by code_simp
  have r: "run_ops \<lparr>data = [0, 0], head = 0, tail = 0, size_rb = 2\<rparr> [OpPush 3, OpPush 9] =
      Some (Inr \<lparr>data = [3, 9], head = 1, tail = 0, size_rb = 2\<rparr>)"
    by code_simp
  have f: "Flush \<lparr>data = [3, 9], head = 1, tail = 0, size_rb = 2\<rparr> =
      Some (Inr ([9], \<lparr>data = [3, 9], head = 0, tail = 0, size_rb = 2\<rparr>))"
    by code_simp
  obtain rb0 where a: "NewRingBuffer 2 = Inr rb0" "Flush rb0 = Some (Inr ([], rb0))"
    and b: "\<forall>ops rb. run_ops rb0 ops = Some (Inr rb) \<longrightarrow>
              (\<exists>xs rb'. Flush rb = Some (Inr (xs, rb')) \<and> Flush rb' = Some (Inr ([], rb')))"
    using Flush_empty_and_idempotent [OF h] by blast
  have rb0: "rb0 = \<lparr>data = [0, 0], head = 0, tail = 0, size_rb = 2\<rparr>"
    using a(1) n by simp
  obtain xs rb' where c: "Flush \<lparr>data = [3, 9], head = 1, tail = 0, size_rb = 2\<rparr> = Some (Inr (xs, rb'))"
    "Flush rb' = Some (Inr ([], rb'))"
    using b r unfolding rb0 by blast
  have "xs = [9]" using c(1) f by simp
  then show ?thesis using h a r c unfolding rb0 by blast
qed

text \<open>
  Claim C6 (end-to-end example): the input \<open>[-2, 3, 4, 9, 0, 6]\<close> leaves the first
  filter as \<open>[3, 4, 9, 0, 6]\<close>, that leaves the second as \<open>[3, 9, 6]\<close>, and the last
  stage, with the default buffer size 5, holds these three values, offers them at the
  tick that follows and has sent \<open>[3, 9, 6]\<close>, in that order, when the sink has taken
  them.
\<close>

theorem end_to_end_example:
  "sent (filterNegative (map (Recv \<circ> Some) [- 2, 3, 4, 9, 0, 6])) = [3, 4, 9, 0, 6] \<and>
   sent (filterNotDivisibleBy3 (map (Recv \<circ> Some) [3, 4, 9, 0, 6])) = [3, 9, 6] \<and>
   defaultBufferSize = 5 \<and>
   bufferAndSend defaultBufferSize defaultFlushInterval (map (ARecv \<circ> Some) [3, 9, 6]) =
     Some (Inr \<lparr>sent = [], closed = False,
       buffer = \<lparr>data = [3, 9, 6, 0, 0], head = 0, tail = 3, size_rb = 5\<rparr>,
       pending = [], returning = False\<rparr>) \<and>
   bufferAndSend defaultBufferSize defaultFlushInterval (map (ARecv \<circ> Some) [3, 9, 6] @ [Tick]) =
     Some (Inr \<lparr>sent = [], closed = False,
       buffer = \<lparr>data = [3, 9, 6, 0, 0], head = 3, tail = 3, size_rb = 5\<rparr>,
       pending = [3, 9, 6], returning = False\<rparr>) \<and>
   bufferAndSend defaultBufferSize defaultFlushInterval
       (map (ARecv \<circ> Some) [3, 9, 6] @ [Tick, Taken, Taken, Taken]) =
     Some (Inr \<lparr>sent = [3, 9, 6], closed = False,
       buffer = \<lparr>data = [3, 9, 6, 0, 0], head = 3, tail = 3, size_rb = 5\<rparr>,
       pending = [], returning = False\<rparr>)"
  by code_simp

text \<open>
  Claim C8 (effective capacity): for a buffer made with size \<open>C \<ge> 1\<close>, every sequence of
  \<open>Push\<close> and \<open>Flush\<close> runs through and leaves \<open>head\<close> and \<open>tail\<close> in \<open>[0, C)\<close>; \<open>Flush\<close>
  then returns \<open>(tail - head) mod C\<close> values, which is at most \<open>C - 1\<close>.
\<close>

theorem effective_capacity_invariant:
  assumes "1 \<le> C"
  shows "\<exists>rb0. NewRingBuffer C = Inr rb0 \<and>
           (\<forall>ops. \<exists>rb xs rb'. run_ops rb0 ops = Some (Inr rb) \<and> size_rb rb = C \<and>
              0 \<le> head rb \<and> head rb < C \<and> 0 \<le> tail rb \<and> tail rb < C \<and>
              Flush rb = Some (Inr (xs, rb')) \<and>
              int (length xs) = (tail rb - head rb) mod C \<and>
              (tail rb - head rb) mod C \<le> C - 1)"
proof -
  obtain rb0 where n: "NewRingBuffer C = Inr rb0" "rb_inv rb0" "size_rb rb0 = C"
    using NewRingBuffer_inv [OF assms] by blast
  have "\<exists>rb xs rb'. run_ops rb0 ops = Some (Inr rb) \<and> size_rb rb = C \<and>
              0 \<le> head rb \<and> head rb < C \<and> 0 \<le> tail rb \<and> tail rb < C \<and>
              Flush rb = Some (Inr (xs, rb')) \<and>
              int (length xs) = (tail rb - head rb) mod C \<and>
              (tail rb - head rb) mod C \<le> C - 1" for ops
  proof -
    obtain rb where r: "run_ops rb0 ops = Some (Inr rb)" "rb_inv rb" "size_rb rb = C"
      using run_ops_inv [OF n(2), of ops] n(3) by auto
    have b: "0 \<le> head rb" "head rb < C" "0 \<le> tail rb" "tail rb < C"
      using r(2,3) by (auto simp: rb_inv_def)
    have "int (length (contents rb)) = (tail rb - head rb) mod C"
      using r(3) assms by (simp add: length_contents count_def)
    moreover have "(tail rb - head rb) mod C \<le> C - 1"
      using count_lt [OF r(2)] r(3) assms by (simp add: count_def)
    ultimately show ?thesis using r b Flush_inv [OF r(2)] by blast
  qed
  then show ?thesis using n(1) by blast
qed

theorem effective_capacity_invariant_witness:
  "(1::int) \<le> 5 \<and>
   (\<exists>rb0 rb xs rb'. NewRingBuffer 5 = Inr rb0 \<and>
      run_ops rb0 (map OpPush [1, 2, 3, 4, 5, 6]) = Some (Inr rb) \<and>
      head rb = 2 \<and> tail rb = 1 \<and> Flush rb = Some (Inr (xs, rb')) \<and> xs = [3, 4, 5, 6] \<and>
      int (length xs) = (tail rb - head rb) mod 5 \<and> (tail rb - head rb) mod 5 \<le> 5 - 1)"
proof -
  have h: "(1::int) \<le> 5" by simp
  have n: "NewRingBuffer 5 = Inr \<lparr>data = [0, 0, 0, 0, 0], head = 0, tail = 0, size_rb = 5\<rparr>"
    by code_simp
  have r: "run_ops \<lparr>data = [0, 0, 0, 0, 0], head = 0, tail = 0, size_rb = 5\<rparr>
      (map OpPush [1, 2, 3, 4, 5, 6]) =
      Some (Inr \<lparr>data = [6, 2, 3, 4, 5], head = 2, tail = 1, size_rb = 5\<rparr>)"
    by code_simp
  have f: "Flush \<lparr>data = [6, 2, 3, 4, 5], head = 2, tail = 1, size_rb = 5\<rparr> =
      Some (Inr ([3, 4, 5, 6], \<lparr>data = [6, 2, 3, 4, 5], head = 1, tail = 1, size_rb = 5\<rparr>))"
    by code_simp
  obtain rb0 where a: "NewRingBuffer 5 = Inr rb0"
    and b: "\<forall>ops. \<exists>rb xs rb'. run_ops rb0 ops = Some (Inr rb) \<and> size_rb rb = 5 \<and>
              0 \<le> head rb \<and> head rb < 5 \<and> 0 \<le> tail rb \<and> tail rb < 5 \<and>
              Flush rb = Some (Inr (xs, rb')) \<and>
              int (length xs) = (tail rb - head rb) mod 5 \<and>
              (tail rb - head rb) mod 5 \<le> 5 - 1"
    using effective_capacity_invariant [OF h] by blast
  have rb0: "rb0 = \<lparr>data = [0, 0, 0, 0, 0], head = 0, tail = 0, size_rb = 5\<rparr>"
    using a n by simp
  obtain rb xs rb' where c: "run_ops rb0 (map OpPush [1, 2, 3, 4, 5, 6]) = Some (Inr rb)"
    "Flush rb = Some (Inr (xs, rb'))" "int (length xs) = (tail rb - head rb) mod 5"
    "(tail rb - head rb) mod 5 \<le> 5 - 1"
    using b by blast
  have rb: "rb = \<lparr>data = [6, 2, 3, 4, 5], head = 2, tail = 1, size_rb = 5\<rparr>"
    using c(1) r unfolding rb0 by simp
  have "xs = [3, 4, 5, 6]" using c(2) f unfolding rb by simp
  moreover have "head rb = 2" "tail rb = 1" by (simp_all add: rb)
  ultimately show ?thesis using h a c by blast
qed

text \<open>
  Claim C9 (no panic for a positive size): for a buffer made with size \<open>C \<ge> 1\<close>, every
  sequence of \<open>Push\<close> and \<open>Flush\<close> returns without a panic, and in the state it leaves
  both indices are inside the slice, the divisor \<open>size\<close> is not zero, and a further
  \<open>Push\<close> of any value and a further \<open>Flush\<close> return too. \<open>NewRingBuffer(0)\<close> returns a
  buffer, and \<open>Push\<close> on it panics with an index out of range.
\<close>

theorem Push_Flush_total:
  "(1 \<le> C \<longrightarrow>
      (\<exists>rb0. NewRingBuffer C = Inr rb0 \<and>
         (\<forall>ops. \<exists>rb. run_ops rb0 ops = Some (Inr rb) \<and>
            in_bounds (data rb) (head rb) \<and> in_bounds (data rb) (tail rb) \<and> size_rb rb \<noteq> 0 \<and>
            (\<forall>v. \<exists>rb'. Push rb v = Inr rb') \<and>
            (\<exists>xs rb'. Flush rb = Some (Inr (xs, rb')))))) \<and>
   (\<exists>rb0. NewRingBuffer 0 = Inr rb0 \<and> (\<forall>v. Push rb0 v = Inl IndexOutOfRange))"
proof (intro conjI impI)
  assume C: "1 \<le> C"
  obtain rb0 where n: "NewRingBuffer C = Inr rb0" "rb_inv rb0"
    using NewRingBuffer_inv [OF C] by blast
  have "\<exists>rb. run_ops rb0 ops = Some (Inr rb) \<and>
            in_bounds (data rb) (head rb) \<and> in_bounds (data rb) (tail rb) \<and> size_rb rb \<noteq> 0 \<and>
            (\<forall>v. \<exists>rb'. Push rb v = Inr rb') \<and>
            (\<exists>xs rb'. Flush rb = Some (Inr (xs, rb')))" for ops
  proof -
    obtain rb where r: "run_ops rb0 ops = Some (Inr rb)" "rb_inv rb"
      using run_ops_inv [OF n(2), of ops] by auto
    have "in_bounds (data rb) (head rb)" "in_bounds (data rb) (tail rb)" "size_rb rb \<noteq> 0"
      using r(2) by (auto simp: rb_inv_def in_bounds_def)
    moreover have "\<exists>rb'. Push rb v = Inr rb'" for v
      using Push_inv [OF r(2), of v] by blast
    ultimately show ?thesis using r(1) Flush_inv [OF r(2)] by blast
  qed
  then show "\<exists>rb0. NewRingBuffer C = Inr rb0 \<and>
         (\<forall>ops. \<exists>rb. run_ops rb0 ops = Some (Inr rb) \<and>
            in_bounds (data rb) (head rb) \<and> in_bounds (data rb) (tail rb) \<and> size_rb rb \<noteq> 0 \<and>
            (\<forall>v. \<exists>rb'. Push rb v = Inr rb') \<and>
            (\<exists>xs rb'. Flush rb = Some (Inr (xs, rb'))))"
    using n(1) by blast
next
  show "\<exists>rb0. NewRingBuffer 0 = Inr rb0 \<and> (\<forall>v. Push rb0 v = Inl IndexOutOfRange)"
    using NewRingBuffer_0 Push_inv0 by blast
qed

theorem Push_Flush_total_witness:
  "(1::int) \<le> 2 \<and>
   (\<exists>rb0 rb. NewRingBuffer 2 = Inr rb0 \<and>
      run_ops rb0 [OpPush 3, OpFlush, OpPush 9, OpPush 6, OpPush 12, OpFlush, OpFlush] = Some (Inr rb) \<and>
      (\<exists>rb'. Push rb 7 = Inr rb') \<and> (\<exists>xs rb'. Flush rb = Some (Inr (xs, rb')))) \<and>
   NewRingBuffer 0 = Inr \<lparr>data = [], head = 0, tail = 0, size_rb = 0\<rparr> \<and>
   Push \<lparr>data = [], head = 0, tail = 0, size_rb = 0\<rparr> 7 = Inl IndexOutOfRange"
proof -
  have h: "(1::int) \<le> 2" by simp
  have z: "NewRingBuffer 0 = Inr \<lparr>data = [], head = 0, tail = 0, size_rb = 0\<rparr>"
    by code_simp
  have "\<exists>rb0. NewRingBuffer 0 = Inr rb0 \<and> (\<forall>v. Push rb0 v = Inl IndexOutOfRange)"
    using Push_Flush_total [of 2] by blast
  then have p: "Push \<lparr>data = [], head = 0, tail = 0, size_rb = 0\<rparr> 7 = Inl IndexOutOfRange"
    using z by auto
  obtain rb0 where a: "NewRingBuffer 2 = Inr rb0"
    and b: "\<forall>ops. \<exists>rb. run_ops rb0 ops = Some (Inr rb) \<and>
            in_bounds (data rb) (head rb) \<and> in_bounds (data rb) (tail rb) \<and> size_rb rb \<noteq> 0 \<and>
            (\<forall>v. \<exists>rb'. Push rb v = Inr rb') \<and>
            (\<exists>xs rb'. Flush rb = Some (Inr (xs, rb')))"
    using Push_Flush_total [of 2] h by blast
  show ?thesis using h a b z p by blast
qed

text \<open>
  Claim C10 (closed upstream): a filter stage returns, closing \<open>out\<close>, exactly when it
  takes the \<open>done\<close> case. While it has not, \<open>k\<close> receives from a closed \<open>in\<close> make
  \<open>filterNegative\<close> send \<open>k\<close> zeros and make \<open>filterNotDivisibleBy3\<close> send nothing, and
  both stages are still running after them.
\<close>

theorem closed_upstream_not_propagated:
  "(closed (filterNegative es) \<longleftrightarrow> Done \<in> set es) \<and>
   (closed (filterNotDivisibleBy3 es) \<longleftrightarrow> Done \<in> set es) \<and>
   (Done \<notin> set es \<longrightarrow>
      filterNegative (es @ replicate k (Recv None)) =
        \<lparr>sent = sent (filterNegative es) @ replicate k 0, closed = False\<rparr> \<and>
      filterNotDivisibleBy3 (es @ replicate k (Recv None)) =
        \<lparr>sent = sent (filterNotDivisibleBy3 es), closed = False\<rparr>)"
  by (simp add: filterNegative_def filterNotDivisibleBy3_def
      filterNegative_loop_closed filterNotDivisibleBy3_loop_closed
      filterNegative_loop_append filterNotDivisibleBy3_loop_append
      filterNegative_loop_zeros filterNotDivisibleBy3_loop_zeros)

theorem closed_upstream_not_propagated_witness:
  "Done \<notin> set [Recv (Some 5), Recv (Some (- 1)), Recv (Some 6)] \<and>
   filterNegative ([Recv (Some 5), Recv (Some (- 1)), Recv (Some 6)] @ replicate 3 (Recv None)) =
     \<lparr>sent = [5, 6, 0, 0, 0], closed = False\<rparr> \<and>
   filterNotDivisibleBy3 ([Recv (Some 5), Recv (Some (- 1)), Recv (Some 6)] @ replicate 3 (Recv None)) =
     \<lparr>sent = [6], closed = False\<rparr>"
proof -
  have h: "Done \<notin> set [Recv (Some 5), Recv (Some (- 1)), Recv (Some 6)]" by simp
  have s: "sent (filterNegative [Recv (Some 5), Recv (Some (- 1)), Recv (Some 6)]) = [5, 6]"
    "sent (filterNotDivisibleBy3 [Recv (Some 5), Recv (Some (- 1)), Recv (Some 6)]) = [6]"
    by code_simp+
  have r: "replicate 3 (0::int) = [0, 0, 0]" by (simp add: numeral_3_eq_3)
  show ?thesis
    using closed_upstream_not_propagated
      [of "[Recv (Some 5), Recv (Some (- 1)), Recv (Some 6)]" 3] h
    by (simp only: s r append.simps simp_thms)
qed

end
